theory Spec2Isabelle
  imports Main
begin

section \<open>S-expression utilities of \<^verbatim>\<open>ulf2english/util.py\<close>\<close>

subsection \<open>Values\<close>

text \<open>
  The Python functions work on nested lists whose leaves are strings, numbers or
  \<^verbatim>\<open>None\<close>. A list is a \<open>Compound\<close>; every other value is an \<open>Atom\<close>.
  Python's \<^verbatim>\<open>==\<close> on these values is structural, which is HOL's \<open>=\<close>.
\<close>

datatype atomv = Text string | Number int | PyNone

datatype tree = Atom atomv | Compound "tree list"

lemma size_member_le: "e \<in> set es \<Longrightarrow> size e \<le> size_list size es"
  by (induction es) auto

text \<open>The only exception these functions can raise on such values.\<close>

datatype error = TypeError

text \<open>Sequencing of computations that may raise: the first error aborts.\<close>

fun and_then :: "error + 'a \<Rightarrow> ('a \<Rightarrow> error + 'b) \<Rightarrow> error + 'b" where
  "and_then (Inl e) f = Inl e"
| "and_then (Inr x) f = f x"

lemma and_then_cong [fundef_cong]:
  "m = m' \<Longrightarrow> (\<And>x. m' = Inr x \<Longrightarrow> f x = f' x) \<Longrightarrow> and_then m f = and_then m' f'"
  by (cases m') auto

text \<open>
  A list comprehension \<^verbatim>\<open>[f(y) for y in ys]\<close>: the calls run left to right and an
  exception in one of them leaves the comprehension.
\<close>

fun comprehension :: "('a \<Rightarrow> error + 'b) \<Rightarrow> 'a list \<Rightarrow> error + 'b list" where
  "comprehension f [] = Inr []"
| "comprehension f (y # ys) =
     and_then (f y) (\<lambda>r. and_then (comprehension f ys) (\<lambda>rs. Inr (r # rs)))"

lemma comprehension_cong [fundef_cong]:
  "ys = ys' \<Longrightarrow> (\<And>y. y \<in> set ys' \<Longrightarrow> f y = f' y) \<Longrightarrow>
   comprehension f ys = comprehension f' ys'"
  by (induction ys' arbitrary: ys) auto

text \<open>
  A loop \<^verbatim>\<open>for e in es:\<close> whose body appends to \<^verbatim>\<open>new_lst\<close> (or skips the element
  with \<^verbatim>\<open>continue\<close>): the body returns the elements it appends.
\<close>

fun for_append :: "('a \<Rightarrow> error + 'b list) \<Rightarrow> 'a list \<Rightarrow> error + 'b list" where
  "for_append body [] = Inr []"
| "for_append body (e # es) =
     and_then (body e) (\<lambda>new. and_then (for_append body es) (\<lambda>rest. Inr (new @ rest)))"

lemma for_append_cong [fundef_cong]:
  "es = es' \<Longrightarrow> (\<And>e. e \<in> set es' \<Longrightarrow> body e = body' e) \<Longrightarrow>
   for_append body es = for_append body' es'"
  by (induction es' arbitrary: es) auto

text \<open>
  Iterating over a value (\<^verbatim>\<open>for e in lst\<close>): a list gives its elements, a string its
  characters as one-character strings, a number or \<^verbatim>\<open>None\<close> raises \<^verbatim>\<open>TypeError\<close>.
\<close>

fun iterate :: "tree \<Rightarrow> error + tree list" where
  "iterate (Compound es) = Inr es"
| "iterate (Atom (Text s)) = Inr (map (\<lambda>c. Atom (Text [c])) s)"
| "iterate (Atom (Number n)) = Inl TypeError"
| "iterate (Atom PyNone) = Inl TypeError"

text \<open>\<^verbatim>\<open>listp(lst)\<close>, also \<^verbatim>\<open>type(e) == list\<close>.\<close>

fun listp :: "tree \<Rightarrow> bool" where
  "listp (Compound es) = True"
| "listp (Atom v) = False"

text \<open>
  Truthiness of a value, as \<^verbatim>\<open>not lst\<close> reads it: the empty list, the empty string,
  zero and \<^verbatim>\<open>None\<close> are false.
\<close>

fun truthy :: "tree \<Rightarrow> bool" where
  "truthy (Compound es) = (es \<noteq> [])"
| "truthy (Atom (Text s)) = (s \<noteq> [])"
| "truthy (Atom (Number n)) = (n \<noteq> 0)"
| "truthy (Atom PyNone) = False"

text \<open>\<^verbatim>\<open>atom(lst)\<close>: \<^verbatim>\<open>not lst or not listp(lst)\<close>.\<close>

definition atom :: "tree \<Rightarrow> bool" where
  "atom lst = (\<not> truthy lst \<or> \<not> listp lst)"

subsection \<open>Replacement and removal\<close>

text \<open>\<^verbatim>\<open>rec_replace(old, new, lst)\<close>.\<close>

function rec_replace :: "tree \<Rightarrow> tree \<Rightarrow> tree \<Rightarrow> error + tree" where
  "rec_replace old new lst =
     (if lst = old then Inr new
      else and_then (iterate lst) (\<lambda>es.
        and_then (for_append (\<lambda>e.
            if e = old then Inr [new]
            else if listp e then and_then (rec_replace old new e) (\<lambda>r. Inr [r])
            else Inr [e]) es)
          (\<lambda>new_lst. Inr (Compound new_lst))))"
  by pat_completeness auto

lemma iterate_listp_smaller:
  "iterate lst = Inr es \<Longrightarrow> e \<in> set es \<Longrightarrow> listp e \<Longrightarrow> size e < size lst"
proof (cases lst)
  case (Atom v)
  assume "iterate lst = Inr es" "e \<in> set es" "listp e"
  with Atom show ?thesis by (cases v) auto
next
  case (Compound cs)
  assume "iterate lst = Inr es" "e \<in> set es"
  with Compound have "e \<in> set cs" by simp
  then have "size e < Suc (size_list size cs)"
    by (induction cs) auto
  with Compound show ?thesis by simp
qed

termination rec_replace
  by (relation "measure (\<lambda>(old, new, lst). size lst)") (auto intro: iterate_listp_smaller)

text \<open>\<^verbatim>\<open>rec_remove(target, lst)\<close>.\<close>

function rec_remove :: "tree \<Rightarrow> tree \<Rightarrow> error + tree" where
  "rec_remove target lst =
     and_then (iterate lst) (\<lambda>es.
       and_then (for_append (\<lambda>e.
           if e = target then Inr []
           else if listp e then and_then (rec_remove target e) (\<lambda>r. Inr [r])
           else Inr [e]) es)
         (\<lambda>new_lst. Inr (Compound new_lst)))"
  by pat_completeness auto

termination rec_remove
  by (relation "measure (\<lambda>(target, lst). size lst)") (auto intro: iterate_listp_smaller)

subsection \<open>Substitution\<close>

text \<open>
  \<^verbatim>\<open>subst(a, b, lst)\<close> puts \<^verbatim>\<open>a\<close> in the place of every \<^verbatim>\<open>b\<close>; \<^verbatim>\<open>subst_rec\<close> is
  its inner function.
\<close>

function subst_rec :: "tree \<Rightarrow> tree \<Rightarrow> tree \<Rightarrow> error + tree" where
  "subst_rec a b x =
     (if x = b then Inr a
      else if atom x then Inr x
      else and_then (iterate x) (\<lambda>ys.
        and_then (comprehension (subst_rec a b) ys) (\<lambda>rs. Inr (Compound rs))))"
  by pat_completeness auto

lemma iterate_not_atom_smaller:
  "\<not> atom lst \<Longrightarrow> iterate lst = Inr es \<Longrightarrow> e \<in> set es \<Longrightarrow> size e < size lst"
proof (cases lst)
  case (Atom v)
  assume "\<not> atom lst"
  with Atom show ?thesis by (simp add: atom_def)
next
  case (Compound cs)
  assume "iterate lst = Inr es" "e \<in> set es"
  with Compound have "e \<in> set cs" by simp
  then have "size e < Suc (size_list size cs)"
    by (induction cs) auto
  with Compound show ?thesis by simp
qed

termination subst_rec
  by (relation "measure (\<lambda>(a, b, x). size x)") (auto intro: iterate_not_atom_smaller)

definition subst :: "tree \<Rightarrow> tree \<Rightarrow> tree \<Rightarrow> error + tree" where
  "subst a b lst = subst_rec a b lst"

text \<open>
  \<^verbatim>\<open>substall(lst, replist)\<close>: the loop \<^verbatim>\<open>for (b, a) in replist: lst = subst(a, b, lst)\<close>,
  with \<^verbatim>\<open>lst\<close> as the loop's state.
\<close>

fun substall :: "tree \<Rightarrow> (tree \<times> tree) list \<Rightarrow> error + tree" where
  "substall lst [] = Inr lst"
| "substall lst ((b, a) # replist) = and_then (subst a b lst) (\<lambda>lst'. substall lst' replist)"

subsection \<open>Extraction\<close>

text \<open>
  \<^verbatim>\<open>cons(lst1, lst2)\<close> where \<^verbatim>\<open>lst2\<close> is a list (the branch \<^verbatim>\<open>listp(lst2)\<close>, the only one
  \<^verbatim>\<open>extract_category\<close> reaches), and \<^verbatim>\<open>append(lst)\<close> on a list of lists.
\<close>

definition cons :: "'a \<Rightarrow> 'a list \<Rightarrow> 'a list" where
  "cons lst1 lst2 = [lst1] @ lst2"

definition append_py :: "'a list list \<Rightarrow> 'a list" where
  "append_py lst = concat lst"

text \<open>\<^verbatim>\<open>split_by_cond(lst, cndfn)\<close>: both comprehensions iterate over \<^verbatim>\<open>lst\<close>.\<close>

definition split_by_cond :: "tree \<Rightarrow> (tree \<Rightarrow> bool) \<Rightarrow> error + (tree list \<times> tree list)" where
  "split_by_cond lst cndfn =
     and_then (iterate lst) (\<lambda>xs.
       Inr (filter (\<lambda>x. \<not> cndfn x) xs, filter (\<lambda>x. cndfn x) xs))"

text \<open>
  \<^verbatim>\<open>extract_category(lst, catfn, ignfn=None)\<close> and its inner function \<^verbatim>\<open>rec\<close>, which
  reads \<^verbatim>\<open>catfn\<close> and \<^verbatim>\<open>ignfn\<close> from the enclosing call. In the ignore branch
  \<^verbatim>\<open>no_sent_ops\<close> is \<^verbatim>\<open>lst\<close> itself; otherwise it is the list of the children that
  \<^verbatim>\<open>catfn\<close> rejects. The predicates are pure and return a truth value.
\<close>

function rec :: "(tree \<Rightarrow> bool) \<Rightarrow> (tree \<Rightarrow> bool) option \<Rightarrow> tree \<Rightarrow> error + (tree \<times> tree list)" where
  "rec catfn ignfn lst =
     (if atom lst then Inr (lst, [])
      else
        and_then
          (if (case ignfn of None \<Rightarrow> False | Some ign \<Rightarrow> ign lst) then Inr (lst, [])
           else and_then (split_by_cond lst catfn) (\<lambda>(filtered, matching).
                  Inr (Compound filtered, matching)))
          (\<lambda>(no_sent_ops, sent_ops).
             and_then (iterate no_sent_ops) (\<lambda>xs.
               and_then (comprehension (rec catfn ignfn) xs) (\<lambda>recursed.
                 Inr (Compound (map fst recursed),
                      append_py (cons sent_ops (map snd recursed)))))))"
  by pat_completeness auto

lemma rec_children_smaller:
  assumes "\<not> atom lst"
    and "(if ignored then Inr (lst, [])
          else and_then (split_by_cond lst catfn) (\<lambda>(filtered, matching).
                 Inr (Compound filtered, matching))) = Inr (no_sent_ops, sent_ops)"
    and "iterate no_sent_ops = Inr xs"
    and "x \<in> set xs"
  shows "size x < size lst"
proof (cases ignored)
  case True
  with assms(2) have "no_sent_ops = lst" by simp
  with assms(1,3,4) show ?thesis by (auto intro: iterate_not_atom_smaller)
next
  case False
  from assms(1) obtain es where lst: "lst = Compound es"
    by (cases lst) (auto simp: atom_def)
  with False assms(2) have "no_sent_ops = Compound (filter (\<lambda>x. \<not> catfn x) es)"
    by (simp add: split_by_cond_def)
  with assms(3,4) have "x \<in> set es" by auto
  moreover from lst have "iterate lst = Inr es" by simp
  ultimately show ?thesis using assms(1) iterate_not_atom_smaller by blast
qed

termination rec
  by (relation "measure (\<lambda>(catfn, ignfn, lst). size lst)") (auto intro: rec_children_smaller)

definition extract_category ::
  "tree \<Rightarrow> (tree \<Rightarrow> bool) \<Rightarrow> (tree \<Rightarrow> bool) option \<Rightarrow> error + (tree \<times> tree list)" where
  "extract_category lst catfn ignfn = rec catfn ignfn lst"

text \<open>
  \<^verbatim>\<open>rec_find(lst, x, test)\<close>, whose \<^verbatim>\<open>test\<close> is \<^verbatim>\<open>==\<close> unless the caller gives another,
  and \<^verbatim>\<open>rec_find_if(lst, cndfn)\<close>.
\<close>

definition rec_find :: "tree \<Rightarrow> tree \<Rightarrow> (tree \<Rightarrow> tree \<Rightarrow> bool) \<Rightarrow> error + tree list" where
  "rec_find lst x test =
     and_then (extract_category lst (\<lambda>y. test x y) None) (\<lambda>(_, categories). Inr categories)"

definition rec_find_if :: "tree \<Rightarrow> (tree \<Rightarrow> bool) \<Rightarrow> error + tree list" where
  "rec_find_if lst cndfn =
     and_then (extract_category lst cndfn None) (\<lambda>(_, categories). Inr categories)"

subsection \<open>The variables of \<^verbatim>\<open>rec\<close>\<close>

text \<open>
  The values \<^verbatim>\<open>rec\<close> gives its variables \<^verbatim>\<open>no_sent_ops\<close> and \<^verbatim>\<open>sent_ops\<close> at a
  non-empty list with elements \<open>es\<close>, and the two components of its result.
\<close>

definition ignored :: "(tree \<Rightarrow> bool) option \<Rightarrow> tree \<Rightarrow> bool" where
  "ignored ignfn lst = (case ignfn of None \<Rightarrow> False | Some ign \<Rightarrow> ign lst)"

definition no_sent_ops :: "(tree \<Rightarrow> bool) \<Rightarrow> (tree \<Rightarrow> bool) option \<Rightarrow> tree list \<Rightarrow> tree list" where
  "no_sent_ops catfn ignfn es =
     (if ignored ignfn (Compound es) then es else filter (\<lambda>x. \<not> catfn x) es)"

definition sent_ops :: "(tree \<Rightarrow> bool) \<Rightarrow> (tree \<Rightarrow> bool) option \<Rightarrow> tree list \<Rightarrow> tree list" where
  "sent_ops catfn ignfn es =
     (if ignored ignfn (Compound es) then [] else filter catfn es)"

definition rewritten :: "(tree \<Rightarrow> bool) \<Rightarrow> (tree \<Rightarrow> bool) option \<Rightarrow> tree \<Rightarrow> tree" where
  "rewritten catfn ignfn lst = fst (projr (rec catfn ignfn lst))"

definition matches :: "(tree \<Rightarrow> bool) \<Rightarrow> (tree \<Rightarrow> bool) option \<Rightarrow> tree \<Rightarrow> tree list" where
  "matches catfn ignfn lst = snd (projr (rec catfn ignfn lst))"

subsection \<open>Nodes and paths\<close>

text \<open>
  The node of a tree at a path, a path being the list of the positions to follow from
  the root; the root is at the empty path.
\<close>

fun subtree :: "tree \<Rightarrow> nat list \<Rightarrow> tree option" where
  "subtree t [] = Some t"
| "subtree (Atom v) (i # path) = None"
| "subtree (Compound es) (i # path) = (if i < length es then subtree (es ! i) path else None)"

text \<open>
  No node strictly between the root and the end of the path satisfies \<open>p\<close>.
\<close>

definition unmatched_above :: "(tree \<Rightarrow> bool) \<Rightarrow> tree \<Rightarrow> nat list \<Rightarrow> bool" where
  "unmatched_above p t path =
     (\<forall>k \<in> {1..<length path}. case subtree t (take k path) of None \<Rightarrow> True | Some a \<Rightarrow> \<not> p a)"

text \<open>
  A node below the root that satisfies \<open>p\<close> and lies inside no other such node.
\<close>

definition top_match :: "(tree \<Rightarrow> bool) \<Rightarrow> tree \<Rightarrow> nat list \<Rightarrow> bool" where
  "top_match p t path =
     (path \<noteq> [] \<and> unmatched_above p t path \<and>
      (case subtree t path of None \<Rightarrow> False | Some n \<Rightarrow> p n))"

text \<open>
  The root, or a node that does not satisfy \<open>p\<close> and lies inside no node below the root
  that does.
\<close>

definition kept_node :: "(tree \<Rightarrow> bool) \<Rightarrow> tree \<Rightarrow> nat list \<Rightarrow> bool" where
  "kept_node p t path =
     (unmatched_above p t path \<and>
      (case subtree t path of None \<Rightarrow> False | Some n \<Rightarrow> path = [] \<or> \<not> p n))"

text \<open>
  The paths of the nodes that \<open>rec\<close> extracts when there is no \<open>ignfn\<close>, in the order
  in which it returns them.
\<close>

function match_paths :: "(tree \<Rightarrow> bool) \<Rightarrow> tree \<Rightarrow> nat list list" where
  "match_paths p (Atom v) = []"
| "match_paths p (Compound es) =
     map (\<lambda>i. [i]) (filter (\<lambda>i. p (es ! i)) [0..<length es]) @
     concat (map (\<lambda>i. map ((#) i) (match_paths p (es ! i)))
               (filter (\<lambda>i. \<not> p (es ! i)) [0..<length es]))"
  by pat_completeness auto

termination match_paths
proof (relation "measure (\<lambda>(p, t). size t)")
  fix p :: "tree \<Rightarrow> bool" and es :: "tree list" and i
  assume "i \<in> set (filter (\<lambda>i. \<not> p (es ! i)) [0..<length es])"
  then have "es ! i \<in> set es" by simp
  then have "size (es ! i) \<le> size_list size es" by (rule size_member_le)
  then show "((p, es ! i), (p, Compound es)) \<in> measure (\<lambda>(p, t). size t)" by simp
qed simp

text \<open>
  A tree with some of its nodes deleted: \<open>D\<close> holds of the paths of the nodes to delete.
  A deleted node goes with everything inside it; every other node stays in its list, in
  the original order.
\<close>

function delete_at :: "(nat list \<Rightarrow> bool) \<Rightarrow> tree \<Rightarrow> tree" where
  "delete_at D (Atom v) = Atom v"
| "delete_at D (Compound es) =
     Compound (map (\<lambda>i. delete_at (\<lambda>path. D (i # path)) (es ! i))
                 (filter (\<lambda>i. \<not> D [i]) [0..<length es]))"
  by pat_completeness auto

termination delete_at
proof (relation "measure (\<lambda>(D, t). size t)")
  fix D :: "nat list \<Rightarrow> bool" and es :: "tree list" and i
  assume "i \<in> set (filter (\<lambda>i. \<not> D [i]) [0..<length es])"
  then have "es ! i \<in> set es" by simp
  then have "size (es ! i) \<le> size_list size es" by (rule size_member_le)
  then show "((\<lambda>path. D (i # path), es ! i), (D, Compound es)) \<in> measure (\<lambda>(D, t). size t)"
    by simp
qed simp

section \<open>Properties\<close>

text \<open>
  The recursive functions are unfolded by hand. Python's bound on the depth of the call
  stack is not part of the model.
\<close>

declare rec.simps [simp del] subst_rec.simps [simp del] rec_replace.simps [simp del]
  rec_remove.simps [simp del] delete_at.simps [simp del]

subsection \<open>Loops whose body cannot raise\<close>

lemma comprehension_Inr:
  "(\<And>y. y \<in> set ys \<Longrightarrow> f y = Inr (g y)) \<Longrightarrow> comprehension f ys = Inr (map g ys)"
  by (induction ys) simp_all

lemma for_append_Inr:
  "(\<And>e. e \<in> set es \<Longrightarrow> body e = Inr (g e)) \<Longrightarrow> for_append body es = Inr (concat (map g es))"
  by (induction es) simp_all

lemma for_append_chars:
  "for_append (\<lambda>e. if e = old then Inr (h e)
       else if listp e then and_then (f e) (\<lambda>r. Inr [r])
       else Inr [e]) (map (\<lambda>c. Atom (Text [c])) s) =
   Inr (concat (map (\<lambda>c. if Atom (Text [c]) = old then h (Atom (Text [c]))
                          else [Atom (Text [c])]) s))"
  by (induction s) simp_all

lemma atom_Atom [simp]: "atom (Atom v)"
  by (simp add: atom_def)

lemma atom_Compound [simp]: "atom (Compound es) = (es = [])"
  by (simp add: atom_def)

subsection \<open>Substitution\<close>

lemma subst_rec_total: "\<exists>r. subst_rec a b x = Inr r"
proof (induction x)
  case (Atom v)
  show ?case by (simp add: subst_rec.simps)
next
  case (Compound es)
  then have "\<And>y. y \<in> set es \<Longrightarrow> subst_rec a b y = Inr (projr (subst_rec a b y))"
    by fastforce
  then have "comprehension (subst_rec a b) es = Inr (map (\<lambda>y. projr (subst_rec a b y)) es)"
    by (rule comprehension_Inr)
  then show ?case by (simp add: subst_rec.simps [of a b "Compound es"])
qed

lemma substall_total: "\<exists>r. substall t ps = Inr r"
proof (induction ps arbitrary: t)
  case Nil
  show ?case by simp
next
  case (Cons p ps)
  obtain b a where p: "p = (b, a)" by (cases p)
  obtain u where "subst a b t = Inr u"
    using subst_rec_total [of a b t] by (auto simp: subst_def)
  with Cons [of u] p show ?case by simp
qed

lemma substall_snoc:
  "substall t (ps @ [(b, a)]) = and_then (substall t ps) (\<lambda>u. subst a b u)"
proof (induction ps arbitrary: t)
  case Nil
  show ?case by (cases "subst a b t") simp_all
next
  case (Cons p ps)
  obtain b' a' where p: "p = (b', a')" by (cases p)
  show ?case using Cons p by (cases "subst a' b' t") simp_all
qed

lemma substall_foldl:
  "substall t ps =
     foldl (\<lambda>acc (target, replacement). and_then acc (subst replacement target)) (Inr t) ps"
proof (induction ps rule: rev_induct)
  case Nil
  show ?case by simp
next
  case (snoc p ps)
  obtain b a where p: "p = (b, a)" by (cases p)
  with snoc show ?case by (simp add: substall_snoc)
qed

text \<open>
  C5. Substituting \<open>R\<close> for \<open>T\<close> in the tree \<open>T\<close> itself gives \<open>R\<close>, whatever \<open>T\<close> is:
  the comparison with the whole tree comes before the test for an atom and before the
  descent into the children.
\<close>

theorem subst_whole_tree: "subst R T T = Inr R"
  by (simp add: subst_def subst_rec.simps)

text \<open>
  C8. Substituting a value for itself returns the tree structurally unchanged.
\<close>

theorem subst_same_value: "subst x x t = Inr t"
proof (induction t)
  case (Atom v)
  show ?case by (simp add: subst_def subst_rec.simps)
next
  case (Compound es)
  then have "comprehension (subst_rec x x) es = Inr (map (\<lambda>y. y) es)"
    by (intro comprehension_Inr) (simp add: subst_def)
  then show ?case by (simp add: subst_def subst_rec.simps [of x x "Compound es"])
qed

text \<open>
  C7. \<open>substall\<close> applies the pairs from left to right: with no pair the tree is
  returned as it is, and the result for the pairs \<open>ps\<close> followed by \<open>(tn, rn)\<close> is
  \<open>subst rn tn\<close> of the result \<open>u\<close> for \<open>ps\<close>. So for the pairs
  \<open>(t1, r1), \<dots>, (tn, rn)\<close> the result is
  \<open>subst rn tn (\<dots> (subst r2 t2 (subst r1 t1 t)))\<close>: the left fold of \<open>subst\<close> over
  the pairs, starting from \<open>t\<close>.
\<close>

theorem substall_left_to_right:
  "substall t [] = Inr t \<and>
   (\<exists>u. substall t ps = Inr u \<and> substall t (ps @ [(tn, rn)]) = subst rn tn u) \<and>
   substall t ps =
     foldl (\<lambda>acc (target, replacement). and_then acc (subst replacement target)) (Inr t) ps"
proof -
  obtain u where "substall t ps = Inr u"
    using substall_total [of t ps] by blast
  then have "\<exists>u. substall t ps = Inr u \<and> substall t (ps @ [(tn, rn)]) = subst rn tn u"
    by (simp add: substall_snoc)
  moreover have "substall t [] = Inr t" by simp
  ultimately show ?thesis using substall_foldl [of t ps] by blast
qed

theorem substall_left_to_right_witness:
  "\<exists>u. substall (Compound [Atom (Text ''a''), Atom (Text ''b'')])
          [(Atom (Text ''a''), Atom (Text ''b''))] = Inr u \<and>
       substall (Compound [Atom (Text ''a''), Atom (Text ''b'')])
          ([(Atom (Text ''a''), Atom (Text ''b''))] @ [(Atom (Text ''b''), Atom (Text ''c''))])
       = subst (Atom (Text ''c'')) (Atom (Text ''b'')) u \<and>
       u = Compound [Atom (Text ''b''), Atom (Text ''b'')]"
  using substall_left_to_right
    [of "Compound [Atom (Text ''a''), Atom (Text ''b'')]"
        "[(Atom (Text ''a''), Atom (Text ''b''))]" "Atom (Text ''b'')" "Atom (Text ''c'')"]
  by (simp add: subst_def subst_rec.simps)

subsection \<open>Extraction: one step of \<^verbatim>\<open>rec\<close>\<close>

lemma rec_atom: "atom lst \<Longrightarrow> rec catfn ignfn lst = Inr (lst, [])"
  by (subst rec.simps) simp

lemma rec_step:
  assumes "es \<noteq> []"
    and "\<And>e. e \<in> set (no_sent_ops catfn ignfn es) \<Longrightarrow> rec catfn ignfn e = Inr (r e)"
  shows "rec catfn ignfn (Compound es) =
         Inr (Compound (map (\<lambda>e. fst (r e)) (no_sent_ops catfn ignfn es)),
              sent_ops catfn ignfn es @ concat (map (\<lambda>e. snd (r e)) (no_sent_ops catfn ignfn es)))"
proof -
  have c: "comprehension (rec catfn ignfn) (no_sent_ops catfn ignfn es) =
           Inr (map r (no_sent_ops catfn ignfn es))"
    using assms(2) by (rule comprehension_Inr)
  show ?thesis
  proof (cases "ignored ignfn (Compound es)")
    case True
    with c assms(1) show ?thesis
      by (subst rec.simps)
        (simp add: ignored_def no_sent_ops_def sent_ops_def append_py_def cons_def comp_def)
  next
    case False
    with c assms(1) show ?thesis
      by (subst rec.simps)
        (simp add: ignored_def no_sent_ops_def sent_ops_def append_py_def cons_def comp_def
          split_by_cond_def)
  qed
qed

lemma rec_total: "\<exists>r. rec catfn ignfn lst = Inr r"
proof (induction lst)
  case (Atom v)
  show ?case by (simp add: rec_atom)
next
  case (Compound es)
  show ?case
  proof (cases "es = []")
    case True
    then show ?thesis by (simp add: rec_atom)
  next
    case False
    have "set (no_sent_ops catfn ignfn es) \<subseteq> set es"
      by (auto simp: no_sent_ops_def)
    with Compound have "\<And>e. e \<in> set (no_sent_ops catfn ignfn es) \<Longrightarrow>
        rec catfn ignfn e = Inr (projr (rec catfn ignfn e))"
      by fastforce
    from rec_step [OF False this] show ?thesis by blast
  qed
qed

lemma rec_eq: "rec catfn ignfn lst = Inr (rewritten catfn ignfn lst, matches catfn ignfn lst)"
  using rec_total [of catfn ignfn lst] by (auto simp: rewritten_def matches_def)

lemma rec_Compound:
  "es \<noteq> [] \<Longrightarrow> rec catfn ignfn (Compound es) =
     Inr (Compound (map (rewritten catfn ignfn) (no_sent_ops catfn ignfn es)),
          sent_ops catfn ignfn es @ concat (map (matches catfn ignfn) (no_sent_ops catfn ignfn es)))"
  using rec_step [where r = "\<lambda>e. (rewritten catfn ignfn e, matches catfn ignfn e)"]
  by (simp add: rec_eq)

subsection \<open>Replacement and removal\<close>

lemma rec_replace_Compound_total: "\<exists>r. rec_replace old new (Compound es) = Inr r"
proof (induction es rule: measure_induct_rule [where f = "size_list size"])
  case (less es)
  define g where "g = (\<lambda>e. if e = old then [new]
     else if listp e then [projr (rec_replace old new e)] else [e])"
  have "(if e = old then Inr [new]
       else if listp e then and_then (rec_replace old new e) (\<lambda>r. Inr [r])
       else Inr [e]) = Inr (g e)" if "e \<in> set es" for e
  proof (cases "e \<noteq> old \<and> listp e")
    case True
    then obtain cs where e: "e = Compound cs" by (cases e) auto
    from that have "size e \<le> size_list size es" by (rule size_member_le)
    with e have "size_list size cs < size_list size es" by simp
    then obtain r where "rec_replace old new (Compound cs) = Inr r"
      using less by blast
    with e True show ?thesis by (simp add: g_def)
  next
    case False
    then show ?thesis by (auto simp: g_def)
  qed
  then have "for_append (\<lambda>e. if e = old then Inr [new]
       else if listp e then and_then (rec_replace old new e) (\<lambda>r. Inr [r])
       else Inr [e]) es = Inr (concat (map g es))"
    by (rule for_append_Inr)
  then show ?case by (simp add: rec_replace.simps [of old new "Compound es"])
qed

lemma rec_replace_Atom:
  "rec_replace old new (Atom v) =
     (if Atom v = old then Inr new
      else case v of
        Text s \<Rightarrow> Inr (Compound (map (\<lambda>c. if Atom (Text [c]) = old then new else Atom (Text [c])) s))
      | Number n \<Rightarrow> Inl TypeError
      | PyNone \<Rightarrow> Inl TypeError)"
proof (cases v)
  case (Text s)
  have "concat (map (\<lambda>c. if Atom (Text [c]) = old then [new] else [Atom (Text [c])]) s) =
        map (\<lambda>c. if Atom (Text [c]) = old then new else Atom (Text [c])) s"
    by (induction s) simp_all
  with Text show ?thesis
    by (subst rec_replace.simps) (simp add: for_append_chars)
qed (subst rec_replace.simps, simp)+

lemma rec_replace_fails:
  "(rec_replace old new t = Inl e) = (t \<noteq> old \<and> ((\<exists>n. t = Atom (Number n)) \<or> t = Atom PyNone))"
proof (cases t)
  case (Compound es)
  with rec_replace_Compound_total [of old new es] show ?thesis by auto
next
  case (Atom v)
  then show ?thesis
    by (cases v; cases e) (simp_all add: rec_replace_Atom)
qed

lemma rec_remove_listp_total: "listp t \<Longrightarrow> \<exists>r. rec_remove target t = Inr r"
proof (induction t)
  case (Atom v)
  then show ?case by simp
next
  case (Compound es)
  define g where "g = (\<lambda>e. if e = target then []
     else if listp e then [projr (rec_remove target e)] else [e])"
  have "(if e = target then Inr []
       else if listp e then and_then (rec_remove target e) (\<lambda>r. Inr [r])
       else Inr [e]) = Inr (g e)" if "e \<in> set es" for e
  proof (cases "e \<noteq> target \<and> listp e")
    case True
    with that Compound.IH obtain r where "rec_remove target e = Inr r" by blast
    with True show ?thesis by (simp add: g_def)
  next
    case False
    then show ?thesis by (auto simp: g_def)
  qed
  then have "for_append (\<lambda>e. if e = target then Inr []
       else if listp e then and_then (rec_remove target e) (\<lambda>r. Inr [r])
       else Inr [e]) es = Inr (concat (map g es))"
    by (rule for_append_Inr)
  then show ?case by (simp add: rec_remove.simps [of target "Compound es"])
qed

lemma rec_remove_Atom:
  "rec_remove target (Atom v) =
     (case v of
        Text s \<Rightarrow> Inr (Compound (filter (\<lambda>e. e \<noteq> target) (map (\<lambda>c. Atom (Text [c])) s)))
      | Number n \<Rightarrow> Inl TypeError
      | PyNone \<Rightarrow> Inl TypeError)"
proof (cases v)
  case (Text s)
  have "concat (map (\<lambda>c. if Atom (Text [c]) = target then [] else [Atom (Text [c])]) s) =
        filter (\<lambda>e. e \<noteq> target) (map (\<lambda>c. Atom (Text [c])) s)"
    by (induction s) simp_all
  with Text show ?thesis
    by (subst rec_remove.simps) (simp add: for_append_chars [where h = "\<lambda>e. []"])
qed (subst rec_remove.simps, simp)+

lemma rec_remove_fails:
  "(rec_remove target t = Inl e) = ((\<exists>n. t = Atom (Number n)) \<or> t = Atom PyNone)"
proof (cases t)
  case (Compound es)
  with rec_remove_listp_total [of t target] show ?thesis by auto
next
  case (Atom v)
  then show ?thesis
    by (cases v; cases e) (simp_all add: rec_remove_Atom)
qed

subsection \<open>Totality\<close>

text \<open>
  C2, as the code has it. \<open>subst\<close>, \<open>substall\<close>, \<open>extract_category\<close>, \<open>rec_find\<close> and
  \<open>rec_find_if\<close> return a result on every tree, atomic or not. \<open>rec_replace\<close> and
  \<open>rec_remove\<close> return a result on every list; they iterate over their argument without
  testing that it is a list, so they raise \<^verbatim>\<open>TypeError\<close> exactly on a number or
  \<^verbatim>\<open>None\<close> (for \<open>rec_replace\<close>: one that is not the value to replace).
\<close>

theorem core_operations_total:
  "(\<exists>r. subst a b t = Inr r) \<and>
   (\<exists>r. substall t replist = Inr r) \<and>
   (\<exists>r. extract_category t catfn ignfn = Inr r) \<and>
   (\<exists>r. rec_find t x test = Inr r) \<and>
   (\<exists>r. rec_find_if t cndfn = Inr r) \<and>
   (\<exists>r. rec_replace old new (Compound es) = Inr r) \<and>
   (\<exists>r. rec_remove target (Compound es) = Inr r) \<and>
   ((rec_replace old new t = Inl TypeError) =
      (t \<noteq> old \<and> ((\<exists>n. t = Atom (Number n)) \<or> t = Atom PyNone))) \<and>
   ((rec_remove target t = Inl TypeError) = ((\<exists>n. t = Atom (Number n)) \<or> t = Atom PyNone))"
proof -
  have "\<exists>r. subst a b t = Inr r"
    using subst_rec_total [of a b t] by (simp add: subst_def)
  moreover have "\<exists>r. substall t replist = Inr r"
    by (rule substall_total)
  moreover have "\<exists>r. extract_category t catfn ignfn = Inr r"
    by (simp add: extract_category_def rec_eq)
  moreover have "\<exists>r. rec_find t x test = Inr r"
    by (simp add: rec_find_def extract_category_def rec_eq)
  moreover have "\<exists>r. rec_find_if t cndfn = Inr r"
    by (simp add: rec_find_if_def extract_category_def rec_eq)
  moreover have "\<exists>r. rec_replace old new (Compound es) = Inr r"
    by (rule rec_replace_Compound_total)
  moreover have "\<exists>r. rec_remove target (Compound es) = Inr r"
    by (rule rec_remove_listp_total) simp
  ultimately show ?thesis
    using rec_replace_fails [of old new t TypeError] rec_remove_fails [of target t TypeError]
    by blast
qed

text \<open>
  The claim as it is written fails on an atom that cannot be iterated over:
  \<^verbatim>\<open>rec_remove("x", 5)\<close> and \<^verbatim>\<open>rec_replace("x", "y", None)\<close> raise \<^verbatim>\<open>TypeError\<close>.
\<close>

theorem rec_remove_rec_replace_raise:
  "rec_remove (Atom (Text ''x'')) (Atom (Number 5)) = Inl TypeError \<and>
   rec_replace (Atom (Text ''x'')) (Atom (Text ''y'')) (Atom PyNone) = Inl TypeError"
  by (simp add: rec_remove.simps rec_replace.simps)

subsection \<open>Termination of the extraction\<close>

text \<open>
  C9. \<open>rec\<close> is defined by recursion on the size of the tree (the termination proof
  above), so \<open>extract_category\<close> returns a pair for every tree and all predicates.
  An atom, which includes the empty list, is returned at once with no matches, and at
  a non-empty list every element handed to the recursive call is strictly smaller
  than the list.
\<close>

theorem extract_category_terminates:
  "(\<exists>lst_new categories. extract_category t catfn ignfn = Inr (lst_new, categories)) \<and>
   (atom t \<longrightarrow> extract_category t catfn ignfn = Inr (t, [])) \<and>
   atom (Compound []) \<and>
   (\<forall>e \<in> set (no_sent_ops catfn ignfn es). size e < size (Compound es))"
proof -
  have "size e < size (Compound es)" if "e \<in> set (no_sent_ops catfn ignfn es)" for e
  proof -
    from that have "e \<in> set es" by (auto simp: no_sent_ops_def split: if_splits)
    then have "size e \<le> size_list size es" by (rule size_member_le)
    then show ?thesis by simp
  qed
  moreover have "\<exists>lst_new categories. extract_category t catfn ignfn = Inr (lst_new, categories)"
    by (simp add: extract_category_def rec_eq)
  moreover have "atom t \<longrightarrow> extract_category t catfn ignfn = Inr (t, [])"
    by (simp add: extract_category_def rec_atom)
  ultimately show ?thesis by simp
qed

theorem extract_category_terminates_witness:
  "(\<exists>lst_new categories.
      extract_category (Compound []) ((=) (Atom (Text ''b''))) None = Inr (lst_new, categories)) \<and>
   atom (Compound []) \<and>
   extract_category (Compound []) ((=) (Atom (Text ''b''))) None = Inr (Compound [], []) \<and>
   size (Atom (Text ''a'')) < size (Compound [Atom (Text ''b''), Atom (Text ''a'')])"
  using extract_category_terminates
    [of "Compound []" "(=) (Atom (Text ''b''))" None "[Atom (Text ''b''), Atom (Text ''a'')]"]
  by (simp add: no_sent_ops_def ignored_def)

subsection \<open>Order of the matches\<close>

lemma rec_Compound_rel:
  assumes "rec catfn ignfn (Compound es) = Inr (lst_new, categories)"
  shows "\<exists>recursed.
           list_all2 (\<lambda>x r. rec catfn ignfn x = Inr r) (no_sent_ops catfn ignfn es) recursed \<and>
           lst_new = Compound (map fst recursed) \<and>
           categories = sent_ops catfn ignfn es @ concat (map snd recursed)"
proof (cases "es = []")
  case True
  with assms have "lst_new = Compound []" "categories = []"
    by (simp_all add: rec_atom)
  with True show ?thesis
    by (simp add: no_sent_ops_def sent_ops_def)
next
  case False
  let ?rs = "map (\<lambda>x. (rewritten catfn ignfn x, matches catfn ignfn x)) (no_sent_ops catfn ignfn es)"
  have "list_all2 (\<lambda>x r. rec catfn ignfn x = Inr r) (no_sent_ops catfn ignfn es) ?rs"
    by (simp add: list_all2_map2 list_all2_same rec_eq)
  moreover from assms False have "lst_new = Compound (map fst ?rs)"
    "categories = sent_ops catfn ignfn es @ concat (map snd ?rs)"
    by (simp_all add: rec_Compound comp_def)
  ultimately show ?thesis by blast
qed

text \<open>
  C4. At a list with elements \<open>es\<close> the returned matches are the matched elements
  followed by the matches of the recursive calls on the kept elements, in the order of
  the elements. Where the list is not ignored, the matched elements are those that
  satisfy \<open>catfn\<close>, in their order in \<open>es\<close>, and the kept ones are the others; where it
  is ignored, nothing is matched at this level and every element is kept.
\<close>

theorem extract_category_match_order:
  assumes "extract_category (Compound es) catfn ignfn = Inr (lst_new, categories)"
  shows "\<exists>matched kept recursed.
           (if ignored ignfn (Compound es) then matched = [] \<and> kept = es
            else matched = filter catfn es \<and> kept = filter (\<lambda>x. \<not> catfn x) es) \<and>
           list_all2 (\<lambda>x r. extract_category x catfn ignfn = Inr r) kept recursed \<and>
           categories = matched @ concat (map snd recursed)"
proof -
  from assms obtain recursed where
    r: "list_all2 (\<lambda>x r. rec catfn ignfn x = Inr r) (no_sent_ops catfn ignfn es) recursed"
    and c: "categories = sent_ops catfn ignfn es @ concat (map snd recursed)"
    using rec_Compound_rel [of catfn ignfn es lst_new categories]
    by (auto simp: extract_category_def)
  have "extract_category x catfn ignfn = rec catfn ignfn x" for x
    by (simp add: extract_category_def)
  with r have r': "list_all2 (\<lambda>x r. extract_category x catfn ignfn = Inr r)
      (no_sent_ops catfn ignfn es) recursed"
    by simp
  show ?thesis
  proof (cases "ignored ignfn (Compound es)")
    case True
    with r' c show ?thesis
      by (intro exI [of _ "[]"] exI [of _ es] exI [of _ recursed])
        (simp add: sent_ops_def no_sent_ops_def)
  next
    case False
    with r' c show ?thesis
      by (intro exI [of _ "filter catfn es"] exI [of _ "filter (\<lambda>x. \<not> catfn x) es"]
          exI [of _ recursed])
        (simp add: sent_ops_def no_sent_ops_def)
  qed
qed

theorem extract_category_match_order_witness:
  "extract_category
     (Compound [Compound [Atom (Text ''x''), Atom (Text ''m'')], Atom (Text ''n'')])
     (\<lambda>y. y = Atom (Text ''m'') \<or> y = Atom (Text ''n'')) None =
     Inr (Compound [Compound [Atom (Text ''x'')]], [Atom (Text ''n''), Atom (Text ''m'')]) \<and>
   (\<exists>matched kept recursed.
      matched = [Atom (Text ''n'')] \<and>
      kept = [Compound [Atom (Text ''x''), Atom (Text ''m'')]] \<and>
      list_all2 (\<lambda>x r. extract_category x
          (\<lambda>y. y = Atom (Text ''m'') \<or> y = Atom (Text ''n'')) None = Inr r) kept recursed \<and>
      [Atom (Text ''n''), Atom (Text ''m'')] = matched @ concat (map snd recursed))"
proof -
  have e: "extract_category
     (Compound [Compound [Atom (Text ''x''), Atom (Text ''m'')], Atom (Text ''n'')])
     (\<lambda>y. y = Atom (Text ''m'') \<or> y = Atom (Text ''n'')) None =
     Inr (Compound [Compound [Atom (Text ''x'')]], [Atom (Text ''n''), Atom (Text ''m'')])"
    by (simp add: extract_category_def rec.simps split_by_cond_def cons_def append_py_def)
  from extract_category_match_order [OF e] e show ?thesis
    by (simp add: ignored_def)
qed

lemma extract_matched_child:
  assumes "catfn c"
  shows "rec catfn None (Compound (xs @ c # ys)) =
     Inr (Compound (map (rewritten catfn None) (filter (\<lambda>x. \<not> catfn x) (xs @ ys))),
          filter catfn xs @ c # filter catfn ys @
          concat (map (matches catfn None) (filter (\<lambda>x. \<not> catfn x) (xs @ ys))))"
  using assms by (simp add: rec_Compound no_sent_ops_def sent_ops_def ignored_def)

text \<open>
  C10. An element \<open>c\<close> that satisfies \<open>catfn\<close> is put among the matches as it is, at the
  place its position among the matched elements gives it, and nothing else of the result
  depends on it: with any other matching \<open>c'\<close> in its place the rewritten tree is the
  same and the matches differ in that one entry only. So \<open>rec\<close> does not descend into
  \<open>c\<close>, and what lies inside \<open>c\<close> adds no entry of its own.
\<close>

theorem matched_child_excised_whole:
  assumes "catfn c" and "catfn c'"
    and "extract_category (Compound (xs @ c # ys)) catfn None = Inr (lst_new, categories)"
  shows "length (filter catfn xs) < length categories \<and>
         categories ! length (filter catfn xs) = c \<and>
         extract_category (Compound (xs @ c' # ys)) catfn None =
           Inr (lst_new, categories [length (filter catfn xs) := c'])"
proof -
  from assms(1,3) have lst_new:
      "lst_new = Compound (map (rewritten catfn None) (filter (\<lambda>x. \<not> catfn x) (xs @ ys)))"
    and categories: "categories = filter catfn xs @ c # filter catfn ys @
          concat (map (matches catfn None) (filter (\<lambda>x. \<not> catfn x) (xs @ ys)))"
    by (simp_all add: extract_category_def extract_matched_child)
  from categories have "length (filter catfn xs) < length categories"
    and "categories ! length (filter catfn xs) = c"
    and "categories [length (filter catfn xs) := c'] = filter catfn xs @ c' # filter catfn ys @
          concat (map (matches catfn None) (filter (\<lambda>x. \<not> catfn x) (xs @ ys)))"
    by simp_all
  with lst_new assms(2) show ?thesis
    by (simp add: extract_category_def extract_matched_child)
qed

theorem matched_child_excised_whole_witness:
  "extract_category
     (Compound ([Atom (Text ''a'')] @ Compound [Atom (Text ''b''), Atom (Text ''d'')] #
        [Atom (Text ''e'')]))
     (\<lambda>y. y = Atom (Text ''b'') \<or> y = Compound [Atom (Text ''b''), Atom (Text ''d'')]) None =
     Inr (Compound [Atom (Text ''a''), Atom (Text ''e'')],
          [Compound [Atom (Text ''b''), Atom (Text ''d'')]]) \<and>
   extract_category
     (Compound ([Atom (Text ''a'')] @ Atom (Text ''b'') # [Atom (Text ''e'')]))
     (\<lambda>y. y = Atom (Text ''b'') \<or> y = Compound [Atom (Text ''b''), Atom (Text ''d'')]) None =
     Inr (Compound [Atom (Text ''a''), Atom (Text ''e'')], [Atom (Text ''b'')])"
proof -
  let ?p = "\<lambda>y. y = Atom (Text ''b'') \<or> y = Compound [Atom (Text ''b''), Atom (Text ''d'')]"
  have e: "extract_category
     (Compound ([Atom (Text ''a'')] @ Compound [Atom (Text ''b''), Atom (Text ''d'')] #
        [Atom (Text ''e'')])) ?p None =
     Inr (Compound [Atom (Text ''a''), Atom (Text ''e'')],
          [Compound [Atom (Text ''b''), Atom (Text ''d'')]])"
    by (simp add: extract_category_def rec.simps split_by_cond_def cons_def append_py_def)
  have c: "?p (Compound [Atom (Text ''b''), Atom (Text ''d'')])" and c': "?p (Atom (Text ''b''))"
    by simp_all
  from matched_child_excised_whole [of ?p, OF c c' e] e show ?thesis
    by simp
qed

subsection \<open>The ignore predicate\<close>

text \<open>
  C1 on the code. In the tree \<^verbatim>\<open>[sent, [ignore, [a, b]], c]\<close>, with \<open>ignfn\<close> true on the
  node \<^verbatim>\<open>[ignore, [a, b]]\<close> only and \<open>catfn\<close> true on \<^verbatim>\<open>b\<close>, the elements of the
  ignored node are not split, but \<open>rec\<close> still calls itself on each of them: inside
  \<^verbatim>\<open>[a, b]\<close> the element \<^verbatim>\<open>b\<close> is extracted. The matches are \<^verbatim>\<open>[b]\<close> and the ignored
  node comes back as \<^verbatim>\<open>[ignore, [a]]\<close>.
\<close>

theorem extract_category_ignore_descends:
  "extract_category
     (Compound [Atom (Text ''sent''),
                Compound [Atom (Text ''ignore''), Compound [Atom (Text ''a''), Atom (Text ''b'')]],
                Atom (Text ''c'')])
     ((=) (Atom (Text ''b'')))
     (Some ((=) (Compound [Atom (Text ''ignore''),
                           Compound [Atom (Text ''a''), Atom (Text ''b'')]]))) =
   Inr (Compound [Atom (Text ''sent''),
                  Compound [Atom (Text ''ignore''), Compound [Atom (Text ''a'')]],
                  Atom (Text ''c'')],
        [Atom (Text ''b'')])"
  by (simp add: extract_category_def rec.simps split_by_cond_def cons_def append_py_def)

subsection \<open>Removal keeps the root\<close>

lemma rec_remove_Compound:
  "rec_remove target (Compound es) =
     Inr (Compound (map (\<lambda>e. if listp e then projr (rec_remove target e) else e)
                        (filter (\<lambda>e. e \<noteq> target) es)))"
proof -
  define g where "g = (\<lambda>e. if e = target then []
     else if listp e then [projr (rec_remove target e)] else [e])"
  have "(if e = target then Inr []
       else if listp e then and_then (rec_remove target e) (\<lambda>r. Inr [r])
       else Inr [e]) = Inr (g e)" for e
  proof (cases "e \<noteq> target \<and> listp e")
    case True
    then obtain r where "rec_remove target e = Inr r"
      using rec_remove_listp_total [of e target] by blast
    with True show ?thesis by (simp add: g_def)
  next
    case False
    then show ?thesis by (auto simp: g_def)
  qed
  then have "for_append (\<lambda>e. if e = target then Inr []
       else if listp e then and_then (rec_remove target e) (\<lambda>r. Inr [r])
       else Inr [e]) es = Inr (concat (map g es))"
    by (intro for_append_Inr)
  moreover have "concat (map g es) =
      map (\<lambda>e. if listp e then projr (rec_remove target e) else e) (filter (\<lambda>e. e \<noteq> target) es)"
    by (induction es) (simp_all add: g_def)
  ultimately show ?thesis
    by (subst rec_remove.simps) simp
qed

text \<open>
  C6. On a list, \<open>rec_remove\<close> returns a list, also when the list itself equals
  \<open>target\<close>: the elements equal to \<open>target\<close> are dropped, the remaining ones follow in
  their order, each list among them replaced by its own \<open>rec_remove\<close>, every other
  value kept. When every element equals \<open>target\<close> the result is the empty list; as the
  statement holds for the lists inside as well, a list emptied by the removal stays in
  its place as an empty list.
\<close>

theorem rec_remove_keeps_root:
  "\<exists>new_lst.
     rec_remove target (Compound es) = Inr (Compound new_lst) \<and>
     list_all2 (\<lambda>e r. if listp e then rec_remove target e = Inr r else r = e)
       (filter (\<lambda>e. e \<noteq> target) es) new_lst \<and>
     ((\<forall>e \<in> set es. e = target) \<longrightarrow> new_lst = [])"
proof -
  let ?new = "map (\<lambda>e. if listp e then projr (rec_remove target e) else e)
                (filter (\<lambda>e. e \<noteq> target) es)"
  have "rec_remove target e = Inr (projr (rec_remove target e))" if "listp e" for e
    using rec_remove_listp_total [OF that, of target] by auto
  then have "list_all2 (\<lambda>e r. if listp e then rec_remove target e = Inr r else r = e)
       (filter (\<lambda>e. e \<noteq> target) es) ?new"
    by (simp add: list_all2_map2 list_all2_same)
  moreover have "(\<forall>e \<in> set es. e = target) \<longrightarrow> ?new = []"
    by (auto simp: filter_empty_conv)
  ultimately show ?thesis
    using rec_remove_Compound [of target es] by blast
qed

theorem rec_remove_keeps_root_witness:
  "(\<exists>new_lst.
     rec_remove (Atom (Text ''v'')) (Compound [Atom (Text ''v''), Atom (Text ''v'')]) =
       Inr (Compound new_lst) \<and> new_lst = []) \<and>
   (\<exists>new_lst.
     rec_remove (Compound [Atom (Text ''v''), Atom (Text ''w'')])
       (Compound [Atom (Text ''v''), Atom (Text ''w'')]) = Inr (Compound new_lst) \<and>
     new_lst = [Atom (Text ''v''), Atom (Text ''w'')])"
  using rec_remove_keeps_root [of "Atom (Text ''v'')" "[Atom (Text ''v''), Atom (Text ''v'')]"]
    rec_remove_keeps_root [of "Compound [Atom (Text ''v''), Atom (Text ''w'')]"
      "[Atom (Text ''v''), Atom (Text ''w'')]"]
  by (simp add: list_all2_Cons1)

subsection \<open>What is extracted and what is kept\<close>

lemma unmatched_above_Nil [simp]: "unmatched_above p t []"
  by (simp add: unmatched_above_def)

lemma unmatched_above_Atom [simp]: "unmatched_above p (Atom v) path"
  by (cases path) (auto simp: unmatched_above_def take_Cons')

lemma unmatched_above_Compound:
  "unmatched_above p (Compound es) (i # path) =
     (i < length es \<longrightarrow> (path \<noteq> [] \<longrightarrow> \<not> p (es ! i)) \<and> unmatched_above p (es ! i) path)"
proof -
  have "unmatched_above p (Compound es) (i # path) =
        (\<forall>k \<in> {1..<Suc (length path)}.
           case subtree (Compound es) (i # take (k - 1) path) of None \<Rightarrow> True | Some a \<Rightarrow> \<not> p a)"
    by (auto simp: unmatched_above_def take_Cons')
  also have "\<dots> = (i < length es \<longrightarrow>
        (\<forall>k \<in> {1..<Suc (length path)}.
           case subtree (es ! i) (take (k - 1) path) of None \<Rightarrow> True | Some a \<Rightarrow> \<not> p a))"
    by auto
  also have "(\<forall>k \<in> {1..<Suc (length path)}.
           case subtree (es ! i) (take (k - 1) path) of None \<Rightarrow> True | Some a \<Rightarrow> \<not> p a) =
        (\<forall>k \<in> {0..<length path}.
           case subtree (es ! i) (take k path) of None \<Rightarrow> True | Some a \<Rightarrow> \<not> p a)"
  proof (intro iffI ballI)
    fix k assume a: "\<forall>k \<in> {1..<Suc (length path)}.
           case subtree (es ! i) (take (k - 1) path) of None \<Rightarrow> True | Some a \<Rightarrow> \<not> p a"
      and "k \<in> {0..<length path}"
    then have "Suc k \<in> {1..<Suc (length path)}" by simp
    with a show "case subtree (es ! i) (take k path) of None \<Rightarrow> True | Some a \<Rightarrow> \<not> p a"
      by (metis diff_Suc_1)
  next
    fix k assume a: "\<forall>k \<in> {0..<length path}.
           case subtree (es ! i) (take k path) of None \<Rightarrow> True | Some a \<Rightarrow> \<not> p a"
      and "k \<in> {1..<Suc (length path)}"
    then have "k - 1 \<in> {0..<length path}" by auto
    with a show "case subtree (es ! i) (take (k - 1) path) of None \<Rightarrow> True | Some a \<Rightarrow> \<not> p a"
      by blast
  qed
  also have "\<dots> = ((path \<noteq> [] \<longrightarrow> \<not> p (es ! i)) \<and> unmatched_above p (es ! i) path)"
  proof (cases "path = []")
    case True
    then show ?thesis by simp
  next
    case False
    then have "{0..<length path} = insert 0 {1..<length path}" by auto
    then show ?thesis using False by (simp add: unmatched_above_def)
  qed
  finally show ?thesis .
qed

lemma top_match_Nil [simp]: "\<not> top_match p t []"
  by (simp add: top_match_def)

lemma top_match_Atom [simp]: "\<not> top_match p (Atom v) path"
  by (cases path) (simp_all add: top_match_def)

lemma top_match_Compound:
  "top_match p (Compound es) (i # path) =
     (i < length es \<and> (if path = [] then p (es ! i) else \<not> p (es ! i) \<and> top_match p (es ! i) path))"
  by (auto simp: top_match_def unmatched_above_Compound)

lemma kept_node_Nil [simp]: "kept_node p t []"
  by (simp add: kept_node_def)

lemma kept_node_Atom [simp]: "\<not> kept_node p (Atom v) (i # path)"
  by (simp add: kept_node_def)

lemma kept_node_Compound:
  "kept_node p (Compound es) (i # path) =
     (i < length es \<and> \<not> p (es ! i) \<and> kept_node p (es ! i) path)"
  by (cases "path = []") (auto simp: kept_node_def unmatched_above_Compound split: option.splits)

lemma match_paths_set: "set (match_paths p t) = {path. top_match p t path}"
proof (induction t)
  case (Atom v)
  show ?case by simp
next
  case (Compound es)
  show ?case
  proof (intro set_eqI iffI)
    fix path assume "path \<in> set (match_paths p (Compound es))"
    then consider i where "i < length es" "p (es ! i)" "path = [i]"
      | i rest where "i < length es" "\<not> p (es ! i)" "rest \<in> set (match_paths p (es ! i))"
          "path = i # rest"
      by auto
    then show "path \<in> {path. top_match p (Compound es) path}"
    proof cases
      case 1
      then show ?thesis by (simp add: top_match_Compound)
    next
      case 2
      with Compound [of "es ! i"] have "top_match p (es ! i) rest" by simp
      moreover from this have "rest \<noteq> []" by auto
      ultimately show ?thesis using 2 by (simp add: top_match_Compound)
    qed
  next
    fix path assume "path \<in> {path. top_match p (Compound es) path}"
    then have tm: "top_match p (Compound es) path" by simp
    then obtain i rest where path: "path = i # rest" by (cases path) auto
    show "path \<in> set (match_paths p (Compound es))"
    proof (cases "rest = []")
      case True
      with tm path show ?thesis by (simp add: top_match_Compound)
    next
      case False
      with tm path have i: "i < length es" "\<not> p (es ! i)" and "top_match p (es ! i) rest"
        by (simp_all add: top_match_Compound)
      with Compound [of "es ! i"] have "rest \<in> set (match_paths p (es ! i))" by simp
      with i path show ?thesis by auto
    qed
  qed
qed

lemma distinct_concat_heads:
  "distinct is \<Longrightarrow> (\<And>i. i \<in> set is \<Longrightarrow> distinct (G i)) \<Longrightarrow>
   distinct (concat (map (\<lambda>i. map ((#) i) (G i)) is))"
proof (induction "is")
  case Nil
  show ?case by simp
next
  case (Cons i "is")
  have "distinct (map ((#) i) (G i))"
    using Cons.prems(2) by (simp add: distinct_map)
  moreover have "distinct (concat (map (\<lambda>i. map ((#) i) (G i)) is))"
    using Cons by simp
  moreover have "set (map ((#) i) (G i)) \<inter> set (concat (map (\<lambda>i. map ((#) i) (G i)) is)) = {}"
    using Cons.prems(1) by auto
  ultimately show ?case by simp
qed

lemma match_paths_distinct: "distinct (match_paths p t)"
proof (induction t)
  case (Atom v)
  show ?case by simp
next
  case (Compound es)
  have "distinct (map (\<lambda>i. [i]) (filter (\<lambda>i. p (es ! i)) [0..<length es]))"
    by (simp add: distinct_map inj_on_def)
  moreover have "distinct (concat (map (\<lambda>i. map ((#) i) (match_paths p (es ! i)))
               (filter (\<lambda>i. \<not> p (es ! i)) [0..<length es])))"
    using Compound by (intro distinct_concat_heads) simp_all
  moreover have "set (map (\<lambda>i. [i]) (filter (\<lambda>i. p (es ! i)) [0..<length es])) \<inter>
      set (concat (map (\<lambda>i. map ((#) i) (match_paths p (es ! i)))
               (filter (\<lambda>i. \<not> p (es ! i)) [0..<length es]))) = {}"
    by auto
  ultimately show ?case by simp
qed

lemma filter_by_index: "filter P es = map ((!) es) (filter (\<lambda>i. P (es ! i)) [0..<length es])"
proof -
  have "filter P es = filter P (map ((!) es) [0..<length es])"
    by (simp add: map_nth)
  also have "\<dots> = map ((!) es) (filter (P \<circ> (!) es) [0..<length es])"
    by (rule filter_map)
  finally show ?thesis by (simp add: comp_def)
qed

lemma matches_Compound:
  "es \<noteq> [] \<Longrightarrow> matches p None (Compound es) =
     filter p es @ concat (map (matches p None) (filter (\<lambda>x. \<not> p x) es))"
  by (simp add: matches_def rec_Compound sent_ops_def no_sent_ops_def ignored_def)

lemma matches_atom: "atom t \<Longrightarrow> matches p ignfn t = []"
  by (simp add: matches_def rec_atom)

lemma match_paths_nodes: "map (subtree t) (match_paths p t) = map Some (matches p None t)"
proof (induction t)
  case (Atom v)
  show ?case by (simp add: matches_atom)
next
  case (Compound es)
  show ?case
  proof (cases "es = []")
    case True
    then show ?thesis by (simp add: matches_atom)
  next
    case False
    let ?M = "filter (\<lambda>i. p (es ! i)) [0..<length es]"
    let ?K = "filter (\<lambda>i. \<not> p (es ! i)) [0..<length es]"
    have "map (subtree (Compound es)) (map (\<lambda>i. [i]) ?M) = map (\<lambda>i. Some (es ! i)) ?M"
      by simp
    also have "\<dots> = map Some (filter p es)"
      by (subst filter_by_index [of p es]) simp
    finally have direct:
      "map (subtree (Compound es)) (map (\<lambda>i. [i]) ?M) = map Some (filter p es)" .
    have "map (\<lambda>i. map (subtree (Compound es)) (map ((#) i) (match_paths p (es ! i)))) ?K =
          map (\<lambda>i. map (subtree (es ! i)) (match_paths p (es ! i))) ?K"
      by (rule map_cong) simp_all
    then have "map (subtree (Compound es)) (concat (map (\<lambda>i. map ((#) i) (match_paths p (es ! i))) ?K))
        = concat (map (\<lambda>i. map (subtree (es ! i)) (match_paths p (es ! i))) ?K)"
      by (simp only: map_concat map_map comp_def)
    also have "\<dots> = concat (map (\<lambda>i. map Some (matches p None (es ! i))) ?K)"
    proof -
      have "map (subtree (es ! i)) (match_paths p (es ! i)) = map Some (matches p None (es ! i))"
        if "i < length es" for i
        using that Compound [of "es ! i"] by simp
      then have "map (\<lambda>i. map (subtree (es ! i)) (match_paths p (es ! i))) ?K =
          map (\<lambda>i. map Some (matches p None (es ! i))) ?K"
        by (intro map_cong) simp_all
      then show ?thesis by (rule arg_cong [where f = concat])
    qed
    also have "\<dots> = map Some (concat (map (matches p None) (map ((!) es) ?K)))"
      by (simp add: map_concat comp_def)
    also have "map ((!) es) ?K = filter (\<lambda>x. \<not> p x) es"
      by (rule filter_by_index [symmetric])
    finally have nested:
      "map (subtree (Compound es)) (concat (map (\<lambda>i. map ((#) i) (match_paths p (es ! i))) ?K))
        = map Some (concat (map (matches p None) (filter (\<lambda>x. \<not> p x) es)))" .
    from direct nested False show ?thesis
      by (simp add: matches_Compound)
  qed
qed

lemma rewritten_atom: "atom t \<Longrightarrow> rewritten p ignfn t = t"
  by (simp add: rewritten_def rec_atom)

lemma rewritten_Compound:
  "es \<noteq> [] \<Longrightarrow> rewritten p None (Compound es) =
     Compound (map (rewritten p None) (filter (\<lambda>x. \<not> p x) es))"
  by (simp add: rewritten_def rec_Compound sent_ops_def no_sent_ops_def ignored_def)

lemma subtree_leaf: "atom t \<Longrightarrow> subtree t path = Some n \<longleftrightarrow> path = [] \<and> n = t"
  by (cases t; cases path) auto

lemma kept_node_leaf: "atom t \<Longrightarrow> kept_node p t path \<longleftrightarrow> path = []"
  by (cases t; cases path) (auto simp: kept_node_Compound)

lemma rewritten_nodes:
  "(\<exists>path'. subtree (rewritten p None t) path' = Some n') \<longleftrightarrow>
   (\<exists>path n. kept_node p t path \<and> subtree t path = Some n \<and> rewritten p None n = n')"
proof (induction t arbitrary: n')
  case (Atom v)
  show ?case
    by (auto simp: rewritten_atom subtree_leaf kept_node_leaf)
next
  case (Compound es)
  show ?case
  proof (cases "es = []")
    case True
    then show ?thesis
      by (auto simp: rewritten_atom subtree_leaf kept_node_leaf)
  next
    case False
    let ?K = "filter (\<lambda>x. \<not> p x) es"
    have rw: "rewritten p None (Compound es) = Compound (map (rewritten p None) ?K)"
      using False by (rule rewritten_Compound)
    show ?thesis
    proof
      assume "\<exists>path'. subtree (rewritten p None (Compound es)) path' = Some n'"
      then obtain path' where sub: "subtree (Compound (map (rewritten p None) ?K)) path' = Some n'"
        using rw by auto
      show "\<exists>path n. kept_node p (Compound es) path \<and> subtree (Compound es) path = Some n \<and>
              rewritten p None n = n'"
      proof (cases path')
        case Nil
        with sub rw have "rewritten p None (Compound es) = n'" by simp
        then have "kept_node p (Compound es) [] \<and> subtree (Compound es) [] = Some (Compound es) \<and>
              rewritten p None (Compound es) = n'"
          by simp
        then show ?thesis by blast
      next
        case (Cons j rest')
        with sub have j: "j < length ?K" and sub': "subtree (rewritten p None (?K ! j)) rest' = Some n'"
          by (simp_all split: if_splits)
        from j have "?K ! j \<in> set ?K" by (rule nth_mem)
        then have "?K ! j \<in> set es" and np: "\<not> p (?K ! j)" by simp_all
        then obtain i where i: "i < length es" "es ! i = ?K ! j"
          by (auto simp: in_set_conv_nth)
        from sub' \<open>?K ! j \<in> set es\<close> Compound [of "?K ! j" n']
        obtain rest n where "kept_node p (?K ! j) rest" "subtree (?K ! j) rest = Some n"
          "rewritten p None n = n'"
          by blast
        with i np have "kept_node p (Compound es) (i # rest) \<and>
            subtree (Compound es) (i # rest) = Some n \<and> rewritten p None n = n'"
          by (simp add: kept_node_Compound)
        then show ?thesis by blast
      qed
    next
      assume "\<exists>path n. kept_node p (Compound es) path \<and> subtree (Compound es) path = Some n \<and>
              rewritten p None n = n'"
      then obtain path n where kept: "kept_node p (Compound es) path"
        and sub: "subtree (Compound es) path = Some n" and n': "rewritten p None n = n'"
        by blast
      show "\<exists>path'. subtree (rewritten p None (Compound es)) path' = Some n'"
      proof (cases path)
        case Nil
        with sub n' have "subtree (rewritten p None (Compound es)) [] = Some n'" by simp
        then show ?thesis by blast
      next
        case (Cons i rest)
        with kept have i: "i < length es" "\<not> p (es ! i)" and kept': "kept_node p (es ! i) rest"
          by (simp_all add: kept_node_Compound)
        from Cons sub i have sub': "subtree (es ! i) rest = Some n" by simp
        from i have mem: "es ! i \<in> set es" by simp
        with kept' sub' n' Compound [of "es ! i" n']
        obtain rest' where r: "subtree (rewritten p None (es ! i)) rest' = Some n'"
          by blast
        from mem i have "es ! i \<in> set ?K" by simp
        then obtain j where j: "j < length ?K" "?K ! j = es ! i"
          by (metis in_set_conv_nth)
        with r have "subtree (Compound (map (rewritten p None) ?K)) (j # rest') = Some n'"
          by simp
        with rw show ?thesis by metis
      qed
    qed
  qed
qed

lemma delete_at_nothing: "delete_at (\<lambda>path. False) t = t"
proof (induction t)
  case (Atom v)
  show ?case by (simp add: delete_at.simps)
next
  case (Compound es)
  have "map (\<lambda>i. delete_at (\<lambda>path. False) (es ! i)) [0..<length es] = map ((!) es) [0..<length es]"
    by (rule map_cong) (simp_all add: Compound)
  then show ?case by (simp add: delete_at.simps map_nth)
qed

lemma top_match_below_kept:
  "i < length es \<Longrightarrow> \<not> p (es ! i) \<Longrightarrow>
   (\<lambda>path. top_match p (Compound es) (i # path)) = top_match p (es ! i)"
  by (rule ext) (simp add: top_match_Compound)

lemma rewritten_delete_at: "rewritten p None t = delete_at (top_match p t) t"
proof (induction t)
  case (Atom v)
  show ?case by (simp add: rewritten_atom delete_at.simps)
next
  case (Compound es)
  show ?case
  proof (cases "es = []")
    case True
    then show ?thesis by (simp add: rewritten_atom delete_at.simps)
  next
    case False
    let ?K = "filter (\<lambda>i. \<not> p (es ! i)) [0..<length es]"
    have K: "filter (\<lambda>i. \<not> top_match p (Compound es) [i]) [0..<length es] = ?K"
      by (rule filter_cong) (simp_all add: top_match_Compound)
    have "map (\<lambda>i. delete_at (\<lambda>path. top_match p (Compound es) (i # path)) (es ! i)) ?K =
          map (\<lambda>i. rewritten p None (es ! i)) ?K"
    proof (rule map_cong)
      fix i assume "i \<in> set ?K"
      then have i: "i < length es" "\<not> p (es ! i)" by simp_all
      then have "es ! i \<in> set es" by simp
      with Compound [of "es ! i"] top_match_below_kept [of i es p] i
      show "delete_at (\<lambda>path. top_match p (Compound es) (i # path)) (es ! i) =
            rewritten p None (es ! i)"
        by simp
    qed simp
    also have "\<dots> = map (rewritten p None) (map ((!) es) ?K)"
      by simp
    also have "map ((!) es) ?K = filter (\<lambda>x. \<not> p x) es"
      by (rule filter_by_index [symmetric])
    finally have "delete_at (top_match p (Compound es)) (Compound es) =
        Compound (map (rewritten p None) (filter (\<lambda>x. \<not> p x) es))"
      by (simp add: delete_at.simps K)
    with False show ?thesis by (simp add: rewritten_Compound)
  qed
qed

text \<open>
  C3, as the code has it, with no \<open>ignfn\<close>. The matches are, entry by entry, the nodes
  at the paths of a duplicate-free list that holds exactly the paths of the nodes below
  the root that satisfy \<open>p\<close> and lie inside no other such node: each of these nodes
  has one entry and there is no other entry. The rewritten tree is \<open>t\<close> with exactly
  these nodes deleted. So its nodes are the root and the nodes of \<open>t\<close> that do not
  satisfy \<open>p\<close> and lie inside no node below the root that does, each of them without
  the matched nodes inside it.
\<close>

theorem extract_category_partition:
  assumes "extract_category t p None = Inr (t', ms)"
  shows "(\<exists>paths. distinct paths \<and> set paths = {path. top_match p t path} \<and>
            map (subtree t) paths = map Some ms) \<and>
         t' = delete_at (top_match p t) t \<and>
         (\<forall>n'. (\<exists>path'. subtree t' path' = Some n') \<longleftrightarrow>
               (\<exists>path n. kept_node p t path \<and> subtree t path = Some n \<and>
                  n' = delete_at (top_match p n) n))"
proof -
  from assms have t': "t' = rewritten p None t" and ms: "ms = matches p None t"
    by (simp_all add: extract_category_def rec_eq)
  have "distinct (match_paths p t) \<and> set (match_paths p t) = {path. top_match p t path} \<and>
        map (subtree t) (match_paths p t) = map Some ms"
    by (simp add: match_paths_distinct match_paths_set match_paths_nodes ms)
  then have first: "\<exists>paths. distinct paths \<and> set paths = {path. top_match p t path} \<and>
            map (subtree t) paths = map Some ms"
    by blast
  have second: "t' = delete_at (top_match p t) t"
    using t' by (simp add: rewritten_delete_at)
  have third: "(\<exists>path'. subtree t' path' = Some n') \<longleftrightarrow>
        (\<exists>path n. kept_node p t path \<and> subtree t path = Some n \<and>
           n' = delete_at (top_match p n) n)" for n'
    using rewritten_nodes [of p t n'] t' by (auto simp: rewritten_delete_at)
  from first second third show ?thesis by blast
qed

theorem extract_category_partition_witness:
  "extract_category
     (Compound [Atom (Text ''a''), Compound [Atom (Text ''b''), Atom (Text ''d'')], Atom (Text ''d'')])
     ((=) (Atom (Text ''d''))) None =
     Inr (Compound [Atom (Text ''a''), Compound [Atom (Text ''b'')]],
          [Atom (Text ''d''), Atom (Text ''d'')]) \<and>
   (\<exists>paths. distinct paths \<and>
      set paths = {path. top_match ((=) (Atom (Text ''d'')))
        (Compound [Atom (Text ''a''), Compound [Atom (Text ''b''), Atom (Text ''d'')],
                   Atom (Text ''d'')]) path} \<and>
      map (subtree (Compound [Atom (Text ''a''), Compound [Atom (Text ''b''), Atom (Text ''d'')],
                              Atom (Text ''d'')])) paths =
        [Some (Atom (Text ''d'')), Some (Atom (Text ''d''))]) \<and>
   Compound [Atom (Text ''a''), Compound [Atom (Text ''b'')]] =
     delete_at
       (top_match ((=) (Atom (Text ''d'')))
         (Compound [Atom (Text ''a''), Compound [Atom (Text ''b''), Atom (Text ''d'')],
                    Atom (Text ''d'')]))
       (Compound [Atom (Text ''a''), Compound [Atom (Text ''b''), Atom (Text ''d'')],
                  Atom (Text ''d'')])"
proof -
  have e: "extract_category
     (Compound [Atom (Text ''a''), Compound [Atom (Text ''b''), Atom (Text ''d'')], Atom (Text ''d'')])
     ((=) (Atom (Text ''d''))) None =
     Inr (Compound [Atom (Text ''a''), Compound [Atom (Text ''b'')]],
          [Atom (Text ''d''), Atom (Text ''d'')])"
    by (simp add: extract_category_def rec.simps split_by_cond_def cons_def append_py_def)
  from extract_category_partition [OF e] e show ?thesis
    by simp
qed

text \<open>
  The claim as it is written fails at the root and inside a matched node. With \<open>p\<close>
  true on the root \<^verbatim>\<open>[a]\<close> only, nothing is matched and the root stays. In
  \<^verbatim>\<open>[[b, c]]\<close> with \<open>p\<close> true on \<^verbatim>\<open>b\<close> and on \<^verbatim>\<open>[b, c]\<close>, the only match is \<^verbatim>\<open>[b, c]\<close>:
  \<^verbatim>\<open>b\<close> has no entry, and \<^verbatim>\<open>c\<close>, which does not satisfy \<open>p\<close>, is not in the rewritten
  tree.
\<close>

theorem extract_category_root_and_nested:
  "extract_category (Compound [Atom (Text ''a'')]) ((=) (Compound [Atom (Text ''a'')])) None =
     Inr (Compound [Atom (Text ''a'')], []) \<and>
   extract_category (Compound [Compound [Atom (Text ''b''), Atom (Text ''c'')]])
     (\<lambda>y. y = Atom (Text ''b'') \<or> y = Compound [Atom (Text ''b''), Atom (Text ''c'')]) None =
     Inr (Compound [], [Compound [Atom (Text ''b''), Atom (Text ''c'')]])"
  by (simp add: extract_category_def rec.simps split_by_cond_def cons_def append_py_def)

end
